theory Spec2Isabelle
  imports Complex_Main "HOL-Library.Multiset" "HOL-Library.Sublist"
    "HOL-Library.Char_ord" "HOL-Library.List_Lexorder"
begin

text \<open>
  A model of \<open>status.py\<close>, which reads URLs from a file, one per line, asks each for
  its HTTP status with a pool of asyncio workers, rate-limited per domain, and writes
  one CSV row per URL. Line 46 of the file is not valid Python, so the module as it is
  written does not compile; the model computes that from the tokens of the line, and
  runs the workers only for a line that compiles. The pure parts (strings, patterns, \<open>RateLimit\<close>) are functions;
  the workers are tasks of one event loop, which run one at a time and hand over at
  \<open>await\<close> only, so a run is a list of events, each resuming one task at one clock
  reading.
\<close>

section \<open>Strings\<close>

text \<open>
  Python strings are modelled as \<open>string\<close>: lists of characters, each a code point
  below 256. The order on strings is the lexicographic order on code points, which is
  how Python compares \<open>str\<close> values.
\<close>

definition isspace :: "char \<Rightarrow> bool" where
  \<comment> \<open>\<open>str.isspace\<close> on the code points below 256: TAB, LF, VT, FF, CR, the
      separators 0x1C to 0x1F, space, NEL (0x85) and the no-break space (0xA0).\<close>
  "isspace c = (of_char c \<in> {9, 10, 11, 12, 13, 28, 29, 30, 31, 32, 133, 160 :: nat})"

definition strip :: "string \<Rightarrow> string" where
  \<comment> \<open>\<open>str.strip()\<close>: leading and trailing whitespace removed.\<close>
  "strip s = rev (dropWhile isspace (rev (dropWhile isspace s)))"

definition endswith :: "string \<Rightarrow> string \<Rightarrow> bool" where
  \<comment> \<open>\<open>s.endswith(t)\<close>\<close>
  "endswith s t = (length t \<le> length s \<and> drop (length s - length t) s = t)"

definition startswith :: "string \<Rightarrow> string \<Rightarrow> bool" where
  "startswith s t = (take (length t) s = t)"

definition isword :: "char \<Rightarrow> bool" where
  \<comment> \<open>The class \<open>\w\<close> of \<open>re\<close> for a \<open>str\<close> pattern, on the code points below 256:
      the underscore and the alphanumeric characters, which are the ASCII letters and
      digits, the ordinal indicators, the micro sign, the superscript digits, the
      fractions and the accented letters (all of 0xC0 to 0xFF but the multiplication
      and the division sign).\<close>
  "isword c = (let n = (of_char c :: nat) in
     (48 \<le> n \<and> n \<le> 57) \<or> (65 \<le> n \<and> n \<le> 90) \<or> n = 95 \<or> (97 \<le> n \<and> n \<le> 122) \<or>
     n \<in> {170, 178, 179, 181, 185, 186, 188, 189, 190} \<or>
     (192 \<le> n \<and> n \<le> 255 \<and> n \<noteq> 215 \<and> n \<noteq> 247))"

definition PROTOCOL_PATTERN_match :: "string \<Rightarrow> bool" where
  \<comment> \<open>\<open>re.compile(r'^\w+://').match(url) is not None\<close>: one or more word characters,
      then \<open>://\<close>. No word character is part of \<open>://\<close>, so the greedy run is the only
      candidate.\<close>
  "PROTOCOL_PATTERN_match url =
     (takeWhile isword url \<noteq> [] \<and> startswith (dropWhile isword url) ''://'')"

definition DOMAIN_PATTERN_match :: "string \<Rightarrow> string option" where
  \<comment> \<open>\<open>re.compile(r'^[^:]+://([^/:]+)').match(url)\<close>, reduced to its group 1:
      a non-empty run without colon, then \<open>://\<close> at the first colon, then a non-empty
      run of characters other than \<open>/\<close> and \<open>:\<close> (the group). \<open>None\<close> when the
      pattern does not match.\<close>
  "DOMAIN_PATTERN_match url =
     (let scheme = takeWhile (\<lambda>c. c \<noteq> CHR '':'') url;
          rest = dropWhile (\<lambda>c. c \<noteq> CHR '':'') url;
          g = takeWhile (\<lambda>c. c \<noteq> CHR ''/'' \<and> c \<noteq> CHR '':'') (drop 3 rest)
      in if scheme \<noteq> [] \<and> startswith rest ''://'' \<and> g \<noteq> [] then Some g else None)"

function str_nat :: "nat \<Rightarrow> string" where
  \<comment> \<open>\<open>str(n)\<close> for a non-negative integer: its decimal digits.\<close>
  "str_nat n = (if n < 10 then [''0123456789'' ! n]
                else str_nat (n div 10) @ [''0123456789'' ! (n mod 10)])"
  by pat_completeness auto
termination
  by (relation "measure id") auto

section \<open>Errors\<close>

text \<open>
  A raised exception is a value: its class is not needed by the program, which only
  renders it with \<open>str(error)\<close>; \<open>message\<close> is that rendering.
\<close>

datatype exn = ValueError (message: string) | AttributeError (message: string)
  | HttpError (message: string) | SyntaxError (message: string)

section \<open>RateLimit\<close>

text \<open>
  \<open>class RateLimit\<close>. Python floats are idealised as real numbers; \<open>float(rate_text)\<close>
  is the parameter \<open>flt\<close>, with \<open>None\<close> for the \<open>ValueError\<close> it raises.
  The attribute \<open>domain\<close> is \<open>None\<close> or a string.
\<close>

record RateLimit =
  domain :: "string option"
  rate :: real
  interval :: real
  last_use :: real

definition dquote :: char where
  "dquote = CHR 0x22"

definition squote :: char where
  "squote = CHR 0x27"

definition split_colon :: "string \<Rightarrow> string option \<times> string" where
  \<comment> \<open>Lines 58 to 61: \<open>raw.split(':', 1)\<close> when \<open>':' in raw\<close>.\<close>
  "split_colon raw =
     (if CHR '':'' \<in> set raw
      then (Some (takeWhile (\<lambda>c. c \<noteq> CHR '':'') raw),
            drop 1 (dropWhile (\<lambda>c. c \<noteq> CHR '':'') raw))
      else (None, raw))"

definition RateLimit_init :: "(string \<Rightarrow> real option) \<Rightarrow> string \<Rightarrow> exn + RateLimit" where
  "RateLimit_init flt raw =
     (case split_colon raw of (dm, rate_text) \<Rightarrow>
        (case flt rate_text of
           None \<Rightarrow> Inl (ValueError (''Invalid rate format: '' @ [dquote] @ raw @ [dquote]))
         | Some r \<Rightarrow>
             Inr \<lparr>domain = dm, rate = r,
                  interval = (if r > 0 then 1 / r else 0), last_use = 0\<rparr>))"

definition falsy :: "string option \<Rightarrow> bool" where
  \<comment> \<open>\<open>not self.domain\<close>: \<open>None\<close> and the empty string are false.\<close>
  "falsy d = (case d of None \<Rightarrow> True | Some s \<Rightarrow> s = [])"

definition matches :: "RateLimit \<Rightarrow> string \<Rightarrow> bool" where
  "matches x d =
     (if falsy (domain x) then True
      else d = the (domain x) \<or> endswith d (CHR ''.'' # the (domain x)))"

definition sort_key_of :: "RateLimit \<Rightarrow> string" where
  \<comment> \<open>Line 97: \<open>lambda x: x.domain or ''\<close>\<close>
  "sort_key_of x = (case domain x of None \<Rightarrow> [] | Some s \<Rightarrow> s)"

definition sort_rates :: "RateLimit list \<Rightarrow> RateLimit list" where
  \<comment> \<open>Line 97: \<open>options.rate.sort(key=..., reverse=True)\<close>. The sort is stable, also
      when reversed: entries with equal keys keep their order.\<close>
  "sort_rates xs = rev (sort_key sort_key_of (rev xs))"

fun first_match :: "('a \<Rightarrow> bool) \<Rightarrow> 'a list \<Rightarrow> nat option" where
  \<comment> \<open>Line 21: the position of \<open>next((x for x in xs if p x), None)\<close>.\<close>
  "first_match p [] = None"
| "first_match p (x # xs) =
     (if p x then Some 0 else map_option Suc (first_match p xs))"

definition resolve :: "RateLimit list \<Rightarrow> string \<Rightarrow> nat option" where
  "resolve rates d = first_match (\<lambda>x. matches x d) rates"


datatype poll = Suspend real | Proceed RateLimit

definition wait_poll :: "RateLimit \<Rightarrow> real \<Rightarrow> real \<Rightarrow> poll" where
  \<comment> \<open>Lines 82 to 87, one pass through the body of \<open>while remaining > 0\<close>, entered with
      the clock reading \<open>t\<close>: either the task suspends in \<open>asyncio.sleep(remaining)\<close>
      and runs the body again when it is resumed, or the loop ends and \<open>last_use\<close> is
      assigned the next clock reading \<open>t'\<close>. No \<open>await\<close> stands between the test and
      the assignment.\<close>
  "wait_poll x t t' =
     (let remaining = last_use x + interval x - t
      in if remaining > 0 then Suspend remaining else Proceed (x\<lparr>last_use := t'\<rparr>))"

subsection \<open>Tasks acquiring one RateLimit\<close>

text \<open>
  The tasks of an asyncio event loop interleave at \<open>await\<close> only. A task inside
  \<open>RateLimit.wait\<close> is either about to run the loop body (at its first entry and each
  time its sleep ends) or has returned, having recorded a timestamp in \<open>last_use\<close>.
  An event \<open>(i, t, t')\<close> resumes task \<open>i\<close>; \<open>t\<close> and \<open>t'\<close> are the values of the two
  calls of \<open>time.time()\<close> it makes before it suspends or returns.
\<close>

datatype acq = Polling | Returned real

record gate =
  lim :: RateLimit
  tasks :: "acq list"

definition gate_step :: "nat \<times> real \<times> real \<Rightarrow> gate \<Rightarrow> gate" where
  "gate_step e g =
     (case e of (i, t, t') \<Rightarrow>
        if i < length (tasks g) \<and> tasks g ! i = Polling
        then (case wait_poll (lim g) t t' of
                Suspend _ \<Rightarrow> g
              | Proceed x \<Rightarrow> g\<lparr>lim := x, tasks := (tasks g)[i := Returned t']\<rparr>)
        else g)"

fun gate_run :: "(nat \<times> real \<times> real) list \<Rightarrow> gate \<Rightarrow> gate" where
  "gate_run [] g = g"
| "gate_run (e # es) g = gate_run es (gate_step e g)"

section \<open>The input file\<close>

text \<open>
  The file object is its unread text (decoded, with \<open>\n\<close> line ends). \<open>readline\<close>
  returns the text up to and including the next line end, or all that is left, and the
  empty string at the end of the file only.
\<close>

definition newline :: char where
  "newline = CHR 0x0A"

fun readline :: "string \<Rightarrow> string \<times> string" where
  "readline [] = ([], [])"
| "readline (c # cs) =
     (if c = newline then ([c], cs)
      else (case readline cs of (l, r) \<Rightarrow> (c # l, r)))"

lemma readline_length: "length (fst (readline s)) + length (snd (readline s)) = length s"
  by (induction s) (auto split: prod.splits)

lemma readline_nonempty: "s \<noteq> [] \<Longrightarrow> fst (readline s) \<noteq> []"
  by (cases s) (auto split: prod.splits)

lemma readline_shorter: "s \<noteq> [] \<Longrightarrow> length (snd (readline s)) < length s"
  using readline_length [of s] readline_nonempty [of s] by (cases "fst (readline s)") auto

function file_lines :: "string \<Rightarrow> string list" where
  \<comment> \<open>Every line that successive calls of \<open>readline\<close> return before the empty string.\<close>
  "file_lines s = (if s = [] then [] else fst (readline s) # file_lines (snd (readline s)))"
  by pat_completeness auto
termination
  by (relation "measure length") (auto simp: readline_shorter)

declare file_lines.simps [simp del]

section \<open>get_status and worker\<close>

text \<open>
  A CSV row is the list of its fields.
\<close>

type_synonym row = "string list"

definition normalise :: "string \<Rightarrow> string" where
  \<comment> \<open>Lines 17 and 18.\<close>
  "normalise url = (if \<not> PROTOCOL_PATTERN_match url then ''http://'' @ url else url)"

definition no_group :: exn where
  \<comment> \<open>Line 20 when the pattern does not match: \<open>None.group(1)\<close>.\<close>
  "no_group = AttributeError
     ([squote] @ ''NoneType'' @ [squote] @ '' object has no attribute ''
        @ [squote] @ ''group'' @ [squote])"

definition error_row :: "string \<Rightarrow> exn \<Rightarrow> row" where
  \<comment> \<open>Line 48.\<close>
  "error_row url error = [url, ''ERROR: '' @ message error]"

subsection \<open>Line 46\<close>

text \<open>
  The argument of \<open>writer.writerow\<close> on line 46 is a list display. Its tokens are
  string literals, the names \<open>status\<close> and \<open>url\<close>, and one comma. In Python's grammar
  adjacent string literals form one literal, and nothing else may follow an operand
  without an operator: an element of the display is here a single name or a run of
  string literals, elements are separated by commas, and a comma may end the list.
\<close>

datatype token = STRING string | NAME_status | NAME_url | COMMA

definition line_46 :: "token list" where
  \<comment> \<open>\<open>['Status:'status, ' <br><a href='url'>'url'</br>']\<close> between its brackets.\<close>
  "line_46 =
     [STRING ''Status:'', NAME_status, COMMA,
      STRING '' <br><a href='', NAME_url, STRING ''>'', NAME_url, STRING ''</br>'']"

datatype expr = Lit string | Var_status | Var_url

fun literal :: "token list \<Rightarrow> string option" where
  \<comment> \<open>A run of string literals, as the one literal it denotes.\<close>
  "literal [] = Some []"
| "literal (STRING s # ts) = map_option (\<lambda>r. s @ r) (literal ts)"
| "literal (t # ts) = None"

definition parse_expr :: "token list \<Rightarrow> expr option" where
  "parse_expr ts =
     (if ts = [] then None
      else if ts = [NAME_status] then Some Var_status
      else if ts = [NAME_url] then Some Var_url
      else map_option Lit (literal ts))"

fun split_commas :: "token list \<Rightarrow> token list list" where
  \<comment> \<open>The runs of tokens between the commas.\<close>
  "split_commas [] = [[]]"
| "split_commas (COMMA # ts) = [] # split_commas ts"
| "split_commas (t # ts) =
     (case split_commas ts of [] \<Rightarrow> [[t]] | seg # segs \<Rightarrow> (t # seg) # segs)"

fun those_exprs :: "expr option list \<Rightarrow> expr list option" where
  "those_exprs [] = Some []"
| "those_exprs (None # xs) = None"
| "those_exprs (Some x # xs) = map_option (\<lambda>r. x # r) (those_exprs xs)"

definition parse_list :: "token list \<Rightarrow> expr list option" where
  \<comment> \<open>The elements of a list display, or \<open>None\<close> for invalid syntax. An empty run
      is allowed only as the whole list, or after a last comma.\<close>
  "parse_list ts =
     (let segs = split_commas ts;
          segs' = (if last segs = [] then butlast segs else segs)
      in those_exprs (map parse_expr segs'))"

definition eval_expr :: "string \<Rightarrow> nat \<Rightarrow> expr \<Rightarrow> string" where
  \<comment> \<open>The field that \<open>writerow\<close> writes for an element: a string as it is, the integer
      \<open>status\<close> in decimal.\<close>
  "eval_expr url status e =
     (case e of Lit s \<Rightarrow> s | Var_url \<Rightarrow> url | Var_status \<Rightarrow> str_nat status)"

definition compile_46 :: "(string \<Rightarrow> nat \<Rightarrow> row) option" where
  \<comment> \<open>Line 46 as compiled: the row for a URL and its status, if the line is valid.\<close>
  "compile_46 =
     map_option (\<lambda>es url status. map (eval_expr url status) es) (parse_list line_46)"

subsection \<open>The tasks\<close>

text \<open>
  The workers run in an environment: \<open>session_head\<close> is
  \<open>session.head(url, allow_redirects=True)\<close>, giving the final status or the exception
  the request raises, and \<open>success_row\<close> is line 46 as compiled.
\<close>

record env =
  session_head :: "string \<Rightarrow> exn + nat"
  success_row :: "string \<Rightarrow> nat \<Rightarrow> row"

definition result_row :: "env \<Rightarrow> string \<Rightarrow> exn + nat \<Rightarrow> row" where
  \<comment> \<open>Lines 44 to 48: the row for what \<open>get_status\<close> returned or raised.\<close>
  "result_row env url r = (case r of Inl error \<Rightarrow> error_row url error
                                   | Inr status \<Rightarrow> success_row env url status)"

text \<open>
  A worker is a coroutine: \<open>Created\<close> before it first runs, \<open>Idle\<close> at the head of
  its loop (line 40), \<open>Waiting\<close> suspended in the \<open>wait\<close> of the rate limit at a position
  of \<open>options.rate\<close>, \<open>Requesting\<close> suspended in the request, \<open>Done\<close> after the
  \<open>break\<close>. The first component is the worker's \<open>start_time\<close>, the string its \<open>url\<close>.
\<close>

datatype wstate = Created | Idle real | Waiting real string nat | Requesting real string
  | Done

record pool =
  urls_file :: string
  out :: "row list"
  flushes :: "real list"
  rates :: "RateLimit list"
  workers :: "wstate list"

definition writerow :: "real \<Rightarrow> real \<Rightarrow> row \<Rightarrow> pool \<Rightarrow> pool" where
  \<comment> \<open>Lines 46 or 48, then 50 and 51, for a worker started at \<open>st\<close>, at the clock
      reading \<open>t\<close>. \<open>flushes\<close> logs the time of every call of \<open>output.flush()\<close>.\<close>
  "writerow st t r s =
     s\<lparr>out := out s @ [r],
       flushes := (if t - st > 2 then flushes s @ [t] else flushes s)\<rparr>"

definition set_worker :: "nat \<Rightarrow> wstate \<Rightarrow> pool \<Rightarrow> pool" where
  "set_worker i w s = s\<lparr>workers := (workers s)[i := w]\<rparr>"

definition acquire :: "nat \<Rightarrow> real \<Rightarrow> string \<Rightarrow> nat \<Rightarrow> real \<Rightarrow> pool \<Rightarrow> pool" where
  \<comment> \<open>Line 23: worker \<open>i\<close> runs the body of the loop of \<open>wait\<close> on the rate limit at
      position \<open>k\<close>.\<close>
  "acquire i st url k t s =
     (case wait_poll (rates s ! k) t t of
        Suspend _ \<Rightarrow> set_worker i (Waiting st url k) s
      | Proceed x \<Rightarrow> set_worker i (Requesting st url) (s\<lparr>rates := (rates s)[k := x]\<rparr>))"

definition next_line :: "nat \<Rightarrow> real \<Rightarrow> real \<Rightarrow> pool \<Rightarrow> pool" where
  \<comment> \<open>Lines 40 to 43, and \<open>get_status\<close> up to its first \<open>await\<close> (lines 17 to 23).\<close>
  "next_line i st t s =
     (case readline (urls_file s) of (line, rest) \<Rightarrow>
        if line = [] then set_worker i Done s
        else
          let url = strip line; s1 = s\<lparr>urls_file := rest\<rparr> in
          (case DOMAIN_PATTERN_match (normalise url) of
             None \<Rightarrow> set_worker i (Idle st) (writerow st t (error_row url no_group) s1)
           | Some d \<Rightarrow>
               (case resolve (rates s1) d of
                  None \<Rightarrow> set_worker i (Requesting st url) s1
                | Some k \<Rightarrow> acquire i st url k t s1)))"

definition step :: "env \<Rightarrow> nat \<times> real \<Rightarrow> pool \<Rightarrow> pool" where
  \<comment> \<open>The event \<open>(i, t)\<close>: the event loop resumes worker \<open>i\<close> when the clock reads \<open>t\<close>,
      and the worker runs to its next suspension.\<close>
  "step env e s =
     (case e of (i, t) \<Rightarrow>
        if i < length (workers s) then
          (case workers s ! i of
             Created \<Rightarrow> next_line i t t s
           | Idle st \<Rightarrow> next_line i st t s
           | Waiting st url k \<Rightarrow> acquire i st url k t s
           | Requesting st url \<Rightarrow>
               set_worker i (Idle st)
                 (writerow st t (result_row env url (session_head env (normalise url))) s)
           | Done \<Rightarrow> s)
        else s)"

fun run :: "env \<Rightarrow> (nat \<times> real) list \<Rightarrow> pool \<Rightarrow> pool" where
  "run env [] s = s"
| "run env (e # es) s = run env es (step env e s)"

definition init_pool :: "nat \<Rightarrow> string \<Rightarrow> RateLimit list \<Rightarrow> pool" where
  \<comment> \<open>Lines 97 to 103: the registry sorted, the file opened, \<open>n\<close> workers created
      (\<open>CONCURRENT_REQUESTS\<close> of them in the source).\<close>
  "init_pool n content rs =
     \<lparr>urls_file = content, out = [], flushes = [], rates = sort_rates rs,
      workers = replicate n Created\<rparr>"

definition CONCURRENT_REQUESTS :: nat where
  "CONCURRENT_REQUESTS = 200"

definition all_done :: "pool \<Rightarrow> bool" where
  \<comment> \<open>Line 104 returns: every worker has left its loop.\<close>
  "all_done s = list_all (\<lambda>w. w = Done) (workers s)"

definition get_status_value :: "env \<Rightarrow> string \<Rightarrow> exn + nat" where
  \<comment> \<open>What \<open>get_status\<close> returns or raises for \<open>url\<close> once its wait is over.\<close>
  "get_status_value env url =
     (case DOMAIN_PATTERN_match (normalise url) of
        None \<Rightarrow> Inl no_group
      | Some d \<Rightarrow> session_head env (normalise url))"

subsection \<open>The module\<close>

text \<open>
  Python compiles a module as a whole before it runs its first statement. A module
  with a line of invalid syntax raises \<open>SyntaxError\<close> (the text of its message varies
  with the interpreter) and none of its statements is run: no argument is parsed, no
  file is opened, no worker is created and nothing is written. Otherwise the module
  runs its pool of \<open>CONCURRENT_REQUESTS\<close> workers through the events \<open>es\<close> of the
  event loop. What the interpreter does on its way out is not part of the module.
\<close>

definition status_py ::
  "(string \<Rightarrow> exn + nat) \<Rightarrow> (nat \<times> real) list \<Rightarrow> string \<Rightarrow> RateLimit list \<Rightarrow> exn + pool" where
  "status_py http es content rs =
     (case compile_46 of
        None \<Rightarrow> Inl (SyntaxError ''invalid syntax'')
      | Some f \<Rightarrow>
          Inr (run \<lparr>session_head = http, success_row = f\<rparr> es
                 (init_pool CONCURRENT_REQUESTS content rs)))"

definition written :: "exn + pool \<Rightarrow> row list" where
  \<comment> \<open>The rows that have been written to the output when the program ends.\<close>
  "written r = (case r of Inl e \<Rightarrow> [] | Inr s \<Rightarrow> out s)"



section \<open>Invariants and measures\<close>

definition spaced :: "gate \<Rightarrow> bool" where
  \<comment> \<open>Every recorded timestamp is at most \<open>last_use\<close>, and any two of them are at
      least the interval apart.\<close>
  "spaced g =
     ((\<forall>i a. i < length (tasks g) \<and> tasks g ! i = Returned a \<longrightarrow> a \<le> last_use (lim g)) \<and>
      (\<forall>i j a b. i < length (tasks g) \<and> j < length (tasks g) \<and> i \<noteq> j \<and>
          tasks g ! i = Returned a \<and> tasks g ! j = Returned b \<longrightarrow>
          interval (lim g) \<le> \<bar>a - b\<bar>))"

definition emit :: "env \<Rightarrow> string \<Rightarrow> row" where
  \<comment> \<open>The row a worker writes for the stripped line \<open>url\<close>.\<close>
  "emit env url = result_row env url (get_status_value env url)"

definition sent :: "env \<Rightarrow> string \<Rightarrow> row" where
  \<comment> \<open>The row a worker writes for \<open>url\<close> once its request has been issued.\<close>
  "sent env url = result_row env url (session_head env (normalise url))"

fun inflight :: "wstate \<Rightarrow> string multiset" where
  \<comment> \<open>The URL a suspended worker holds: read from the file, its row not yet written.\<close>
  "inflight (Waiting st url k) = {#url#}"
| "inflight (Requesting st url) = {#url#}"
| "inflight w = {#}"

definition pending :: "pool \<Rightarrow> string multiset" where
  "pending s = sum_list (map inflight (workers s))"

definition accounted :: "env \<Rightarrow> pool \<Rightarrow> row multiset" where
  \<comment> \<open>The rows written, those owed for the URLs in flight, and those owed for the
      lines still unread: every step leaves this multiset unchanged.\<close>
  "accounted env s =
     mset (out s) + image_mset (sent env) (pending s) +
     image_mset (emit env) (mset (map strip (file_lines (urls_file s))))"

definition drained :: "pool \<Rightarrow> bool" where
  \<comment> \<open>A worker leaves its loop only at the end of the file.\<close>
  "drained s = (Done \<in> set (workers s) \<longrightarrow> urls_file s = [])"

fun weight :: "wstate \<Rightarrow> nat" where
  "weight Done = 0"
| "weight Created = 1"
| "weight (Idle st) = 1"
| "weight (Requesting st url) = 2"
| "weight (Waiting st url k) = 3"

definition work_left :: "pool \<Rightarrow> nat" where
  \<comment> \<open>A bound on the steps that still change the state: three for every unread line,
      and the weight of every worker.\<close>
  "work_left s = 3 * length (file_lines (urls_file s)) + sum_list (map weight (workers s))"

fun start_time :: "wstate \<Rightarrow> real option" where
  \<comment> \<open>The local \<open>start_time\<close> of a worker that has started and not yet exited.\<close>
  "start_time Created = None"
| "start_time (Idle st) = Some st"
| "start_time (Waiting st url k) = Some st"
| "start_time (Requesting st url) = Some st"
| "start_time Done = None"

section \<open>Properties of RateLimit\<close>

lemma endswith_suffix: "endswith s t = suffix t s"
proof
  assume "endswith s t"
  then have "s = take (length s - length t) s @ t"
    by (metis append_take_drop_id endswith_def)
  then show "suffix t s" by (metis suffixI)
next
  assume "suffix t s"
  then obtain u where "s = u @ t" by (auto simp: suffix_def)
  then show "endswith s t" by (simp add: endswith_def)
qed

text \<open>
  Claim C8. A rate limit whose domain is a non-empty string \<open>sc\<close> matches a domain
  \<open>d\<close> exactly when \<open>d\<close> is \<open>sc\<close> or ends with a dot followed by \<open>sc\<close>; a rate limit
  with no domain (\<open>None\<close>, or the empty string) matches every domain. The scope \<open>example.com\<close> matches
  \<open>example.com\<close> and \<open>api.example.com\<close> and does not match \<open>notexample.com\<close>.
\<close>

theorem matches_scope:
  "(domain x = Some sc \<and> sc \<noteq> [] \<longrightarrow>
      matches x d = (d = sc \<or> suffix (CHR ''.'' # sc) d)) \<and>
   (domain x = None \<or> domain x = Some [] \<longrightarrow> matches x d) \<and>
   matches \<lparr>domain = Some ''example.com'', rate = r, interval = v, last_use = l\<rparr>
     ''example.com'' \<and>
   matches \<lparr>domain = Some ''example.com'', rate = r, interval = v, last_use = l\<rparr>
     ''api.example.com'' \<and>
   \<not> matches \<lparr>domain = Some ''example.com'', rate = r, interval = v, last_use = l\<rparr>
     ''notexample.com''"
proof (intro conjI impI)
  assume "domain x = Some sc \<and> sc \<noteq> []"
  then show "matches x d = (d = sc \<or> suffix (CHR ''.'' # sc) d)"
    by (simp add: matches_def falsy_def endswith_suffix)
next
  assume "domain x = None \<or> domain x = Some []"
  then show "matches x d" by (auto simp: matches_def falsy_def)
qed (simp_all add: matches_def falsy_def endswith_def)

theorem matches_scope_witness:
  "matches \<lparr>domain = Some ''b.c'', rate = 1, interval = 1, last_use = 0\<rparr> ''a.b.c'' \<and>
   \<not> matches \<lparr>domain = Some ''b.c'', rate = 1, interval = 1, last_use = 0\<rparr> ''ab.c'' \<and>
   matches \<lparr>domain = None, rate = 1, interval = 1, last_use = 0\<rparr> ''ab.c''"
  using
    matches_scope [of "\<lparr>domain = Some ''b.c'', rate = 1, interval = 1, last_use = 0\<rparr>"
      "''b.c''" "''a.b.c''"]
    matches_scope [of "\<lparr>domain = Some ''b.c'', rate = 1, interval = 1, last_use = 0\<rparr>"
      "''b.c''" "''ab.c''"]
    matches_scope [of "\<lparr>domain = None, rate = 1, interval = 1, last_use = 0\<rparr>" _ "''ab.c''"]
  by (simp add: suffix_def Cons_eq_append_conv)

text \<open>
  Claim C10. \<open>RateLimit(raw)\<close> raises exactly when \<open>float\<close> rejects the rate part, and
  what it raises is the \<open>ValueError\<close> of line 65. Every rate that parses is accepted;
  a rate \<open>r \<le> 0\<close> gives interval 0, and then, whatever \<open>last_use\<close> has become, a
  \<open>wait\<close> entered when the clock is not behind \<open>last_use\<close> returns without sleeping.
\<close>

theorem RateLimit_init_rate:
  "((\<exists>e. RateLimit_init flt raw = Inl e) = (flt (snd (split_colon raw)) = None)) \<and>
   (\<forall>e. RateLimit_init flt raw = Inl e \<longrightarrow>
      e = ValueError (''Invalid rate format: '' @ [dquote] @ raw @ [dquote])) \<and>
   (\<forall>r. flt (snd (split_colon raw)) = Some r \<longrightarrow>
      (\<exists>x. RateLimit_init flt raw = Inr x \<and> rate x = r \<and>
        (r \<le> 0 \<longrightarrow> interval x = 0 \<and>
           (\<forall>l t t'. l \<le> t \<longrightarrow>
              wait_poll (x\<lparr>last_use := l\<rparr>) t t' = Proceed (x\<lparr>last_use := t'\<rparr>)))))"
  by (auto simp: RateLimit_init_def wait_poll_def split: prod.splits option.splits)

theorem RateLimit_init_rate_witness:
  "RateLimit_init (\<lambda>s. if s = ''-5'' then Some (-5) else None) ''example.com:-5'' =
     Inr \<lparr>domain = Some ''example.com'', rate = -5, interval = 0, last_use = 0\<rparr> \<and>
   wait_poll \<lparr>domain = Some ''example.com'', rate = -5, interval = 0, last_use = 7\<rparr> 7 8 =
     Proceed \<lparr>domain = Some ''example.com'', rate = -5, interval = 0, last_use = 8\<rparr> \<and>
   RateLimit_init (\<lambda>s. if s = ''-5'' then Some (-5) else None) ''example.com:fast'' =
     Inl (ValueError (''Invalid rate format: '' @ [dquote] @ ''example.com:fast'' @ [dquote]))"
  using
    RateLimit_init_rate [of "\<lambda>s. if s = ''-5'' then Some (-5) else None" "''example.com:-5''"]
    RateLimit_init_rate [of "\<lambda>s. if s = ''-5'' then Some (-5) else None" "''example.com:fast''"]
  by (simp add: split_colon_def RateLimit_init_def wait_poll_def)

lemma sort_rates_descending:
  "sorted (rev (map sort_key_of (sort_rates xs))) \<and> mset (sort_rates xs) = mset xs"
  by (simp add: sort_rates_def rev_map)

text \<open>
  Claim C2. The registry is sorted by the domain string itself, in descending
  lexicographic order, not by its length: given the rules for \<open>api.example.com\<close> and
  \<open>example.com\<close>, the sort puts \<open>example.com\<close> first, and the domain
  \<open>api.example.com\<close> resolves to it (position 0) although the longer rule matches too.
\<close>

theorem sort_rates_lexicographic:
  "sort_rates
     [\<lparr>domain = Some ''api.example.com'', rate = 2, interval = 1 / 2, last_use = 0\<rparr>,
      \<lparr>domain = Some ''example.com'', rate = 1, interval = 1, last_use = 0\<rparr>] =
     [\<lparr>domain = Some ''example.com'', rate = 1, interval = 1, last_use = 0\<rparr>,
      \<lparr>domain = Some ''api.example.com'', rate = 2, interval = 1 / 2, last_use = 0\<rparr>] \<and>
   resolve (sort_rates
     [\<lparr>domain = Some ''api.example.com'', rate = 2, interval = 1 / 2, last_use = 0\<rparr>,
      \<lparr>domain = Some ''example.com'', rate = 1, interval = 1, last_use = 0\<rparr>])
     ''api.example.com'' = Some 0 \<and>
   matches \<lparr>domain = Some ''api.example.com'', rate = 2, interval = 1 / 2, last_use = 0\<rparr>
     ''api.example.com''"
  by (simp add: sort_rates_def sort_key_of_def resolve_def matches_def falsy_def endswith_def)

subsection \<open>Concurrent acquisitions\<close>

lemma gate_step_interval: "interval (lim (gate_step e g)) = interval (lim g)"
  by (auto simp: gate_step_def wait_poll_def Let_def split: prod.splits poll.splits if_splits)

lemma gate_step_length: "length (tasks (gate_step e g)) = length (tasks g)"
  by (auto simp: gate_step_def split: prod.splits poll.splits)

lemma gate_step_spaced:
  assumes inv: "spaced g" and nn: "0 \<le> interval (lim g)" and mono: "fst (snd e) \<le> snd (snd e)"
  shows "spaced (gate_step e g)"
proof -
  obtain i t t' where e: "e = (i, t, t')" by (cases e) auto
  show ?thesis
  proof (cases "i < length (tasks g) \<and> tasks g ! i = Polling \<and> \<not> last_use (lim g) + interval (lim g) - t > 0")
    case False
    then have "gate_step e g = g"
      by (auto simp: gate_step_def e wait_poll_def Let_def)
    with inv show ?thesis by simp
  next
    case True
    then have g': "gate_step e g = g\<lparr>lim := (lim g)\<lparr>last_use := t'\<rparr>, tasks := (tasks g)[i := Returned t']\<rparr>"
      by (auto simp: gate_step_def e wait_poll_def Let_def)
    from True mono e have late: "last_use (lim g) + interval (lim g) \<le> t'" by auto
    have old: "\<And>k a. k < length (tasks g) \<Longrightarrow> tasks g ! k = Returned a \<Longrightarrow> a + interval (lim g) \<le> t'"
      using inv late unfolding spaced_def by fastforce
    show ?thesis
      unfolding spaced_def g'
    proof (intro conjI allI impI)
      fix k a
      assume "k < length (tasks (g\<lparr>lim := (lim g)\<lparr>last_use := t'\<rparr>, tasks := (tasks g)[i := Returned t']\<rparr>)) \<and>
         tasks (g\<lparr>lim := (lim g)\<lparr>last_use := t'\<rparr>, tasks := (tasks g)[i := Returned t']\<rparr>) ! k = Returned a"
      then show "a \<le> last_use (lim (g\<lparr>lim := (lim g)\<lparr>last_use := t'\<rparr>, tasks := (tasks g)[i := Returned t']\<rparr>))"
        using old [of k a] nn by (cases "k = i") auto
    next
      fix k j a b
      assume h: "k < length (tasks (g\<lparr>lim := (lim g)\<lparr>last_use := t'\<rparr>, tasks := (tasks g)[i := Returned t']\<rparr>)) \<and>
         j < length (tasks (g\<lparr>lim := (lim g)\<lparr>last_use := t'\<rparr>, tasks := (tasks g)[i := Returned t']\<rparr>)) \<and>
         k \<noteq> j \<and>
         tasks (g\<lparr>lim := (lim g)\<lparr>last_use := t'\<rparr>, tasks := (tasks g)[i := Returned t']\<rparr>) ! k = Returned a \<and>
         tasks (g\<lparr>lim := (lim g)\<lparr>last_use := t'\<rparr>, tasks := (tasks g)[i := Returned t']\<rparr>) ! j = Returned b"
      have both: "k \<noteq> i \<Longrightarrow> j \<noteq> i \<Longrightarrow> interval (lim g) \<le> \<bar>a - b\<bar>"
        using h inv unfolding spaced_def by (auto simp: nth_list_update)
      have one: "k = i \<Longrightarrow> interval (lim g) \<le> \<bar>a - b\<bar>"
        using h old [of j b] nn by (auto simp: nth_list_update)
      have two: "j = i \<Longrightarrow> interval (lim g) \<le> \<bar>a - b\<bar>"
        using h old [of k a] nn by (auto simp: nth_list_update)
      from both one two
      show "interval (lim (g\<lparr>lim := (lim g)\<lparr>last_use := t'\<rparr>, tasks := (tasks g)[i := Returned t']\<rparr>)) \<le> \<bar>a - b\<bar>"
        by auto
    qed
  qed
qed

lemma gate_run_spaced:
  "spaced g \<Longrightarrow> 0 \<le> interval (lim g) \<Longrightarrow> list_all (\<lambda>e. fst (snd e) \<le> snd (snd e)) es \<Longrightarrow>
   spaced (gate_run es g) \<and> interval (lim (gate_run es g)) = interval (lim g)"
proof (induction es arbitrary: g)
  case Nil
  then show ?case by simp
next
  case (Cons e es)
  then show ?case
    using gate_step_spaced [of g e] gate_step_interval [of e g] by simp
qed

text \<open>
  Claim C3. Tasks acquire one rate limit concurrently, interleaved in any order at
  their suspension points, with a clock that does not run backwards between the two
  readings of one resumption. Then the timestamps that any two tasks recorded in
  \<open>last_use\<close> on returning from \<open>wait\<close> are at least the interval apart: the test of
  \<open>remaining\<close> and the assignment of \<open>last_use\<close> run without a suspension between
  them, and a task that slept tests again.
\<close>

theorem wait_spacing:
  assumes "list_all (\<lambda>w. w = Polling) (tasks g)"
    and "0 \<le> interval (lim g)"
    and "list_all (\<lambda>e. fst (snd e) \<le> snd (snd e)) es"
    and "i < length (tasks (gate_run es g))" and "j < length (tasks (gate_run es g))"
    and "i \<noteq> j"
    and "tasks (gate_run es g) ! i = Returned a"
    and "tasks (gate_run es g) ! j = Returned b"
  shows "interval (lim g) \<le> \<bar>a - b\<bar>"
proof -
  have "spaced g"
    using assms(1) by (auto simp: spaced_def list_all_length)
  then have "spaced (gate_run es g)" and "interval (lim (gate_run es g)) = interval (lim g)"
    using gate_run_spaced assms(2,3) by blast+
  then show ?thesis
    using assms(4-8) unfolding spaced_def by metis
qed

theorem wait_spacing_witness:
  "tasks (gate_run [(0, 5, 5), (1, 11 / 2, 11 / 2), (1, 6, 61 / 10)]
      \<lparr>lim = \<lparr>domain = None, rate = 1, interval = 1, last_use = 0\<rparr>,
       tasks = [Polling, Polling]\<rparr>) = [Returned 5, Returned (61 / 10)] \<and>
   (1::real) \<le> \<bar>5 - 61 / 10\<bar>"
  using wait_spacing [of "\<lparr>lim = \<lparr>domain = None, rate = 1, interval = 1, last_use = 0\<rparr>,
       tasks = [Polling, Polling]\<rparr>" "[(0, 5, 5), (1, 11 / 2, 11 / 2), (1, 6, 61 / 10)]" 0 1 5 "61 / 10"]
  by (simp add: gate_step_def wait_poll_def)

section \<open>The module as written\<close>

lemma parse_list_line_46: "parse_list line_46 = None"
  by (simp add: parse_list_def line_46_def parse_expr_def)

lemma compile_46_fails: "compile_46 = None"
  by (simp add: compile_46_def parse_list_line_46)

lemma status_py_raises: "status_py http es content rs = Inl (SyntaxError ''invalid syntax'')"
  by (simp add: status_py_def compile_46_fails)

text \<open>
  Claim C4. Line 46, which is to write the row of a URL whose request succeeded, is not
  valid Python: its first element puts the name \<open>status\<close> directly after a string
  literal. (A display of two names separated by a comma, the row of the claim, is
  valid.) So the module does not compile: for the file holding the line
  \<open>example.com\<close>, answered with 200, the program ends with \<open>SyntaxError\<close> and has
  written no row, neither the URL with its status nor any other.
\<close>

theorem line_46_invalid_syntax:
  "parse_expr [STRING ''Status:'', NAME_status] = None \<and>
   parse_list line_46 = None \<and>
   parse_list [NAME_url, COMMA, NAME_status] = Some [Var_url, Var_status] \<and>
   status_py (\<lambda>u. Inr 200) es (''example.com'' @ [newline]) rs =
     Inl (SyntaxError ''invalid syntax'') \<and>
   written (status_py (\<lambda>u. Inr 200) es (''example.com'' @ [newline]) rs) = []"
  by (simp add: status_py_raises written_def parse_list_line_46)
    (simp add: parse_list_def parse_expr_def)

text \<open>
  Claim C1. The program writes no row for any file, any pool of events and any
  registry, since it ends with \<open>SyntaxError\<close> before it opens the file. The file
  holding the one line \<open>example.com\<close> has one non-blank line and gets no record.
\<close>

theorem no_record_for_any_line:
  "written (status_py http es content rs) = [] \<and>
   filter (\<lambda>u. u \<noteq> []) (map strip (file_lines (''example.com'' @ [newline]))) =
     [''example.com'']"
  by (simp add: status_py_raises written_def file_lines.simps newline_def strip_def isspace_def)




section \<open>The loop of the workers, for a line 46 that compiles\<close>

text \<open>
  What follows is about \<open>run\<close> in an arbitrary environment, that is, about lines 28 to
  51 around whatever row a valid line 46 would write. It says nothing of the module as
  it is written, which never reaches these lines.
\<close>

lemma sum_list_update:
  fixes f :: "'a \<Rightarrow> 'b::comm_monoid_add"
  shows "i < length xs \<Longrightarrow> sum_list (map f (xs[i := w])) + f (xs ! i) = sum_list (map f xs) + f w"
  by (induction xs arbitrary: i) (auto simp: nth_Cons' ac_simps split: nat.splits)

lemma pending_set_worker:
  "i < length (workers s) \<Longrightarrow>
   pending (set_worker i w s) + inflight (workers s ! i) = pending s + inflight w"
  by (simp add: pending_def set_worker_def sum_list_update)

lemma readline_empty: "(fst (readline s) = []) = (s = [])"
  by (cases s) (auto split: prod.splits)

lemma file_lines_readline:
  "readline s = (line, rest) \<Longrightarrow> line \<noteq> [] \<Longrightarrow> file_lines s = line # file_lines rest"
  using readline_empty [of s] by (subst file_lines.simps) auto

lemma readline_end: "readline s = ([], rest) \<Longrightarrow> s = []"
  using readline_empty [of s] by simp

lemma emit_no_domain:
  "DOMAIN_PATTERN_match (normalise url) = None \<Longrightarrow> emit env url = error_row url no_group"
  by (simp add: emit_def get_status_value_def result_row_def)

lemma emit_domain:
  "DOMAIN_PATTERN_match (normalise url) = Some d \<Longrightarrow>
   emit env url = sent env url"
  by (simp add: emit_def get_status_value_def sent_def)

lemma accounted_acquire:
  assumes "i < length (workers s)"
  shows "accounted env (acquire i st url k t s) + image_mset (sent env) (inflight (workers s ! i))
       = accounted env s + {#sent env url#}"
proof -
  have a: "pending (acquire i st url k t s) + inflight (workers s ! i) = pending s + {#url#}"
    using assms pending_set_worker [of i s "Waiting st url k"]
      pending_set_worker [of i "s\<lparr>rates := (rates s)[k := x]\<rparr>" "Requesting st url" for x]
    by (auto simp: acquire_def split: poll.splits) (simp_all add: pending_def set_worker_def)
  have b: "out (acquire i st url k t s) = out s" "urls_file (acquire i st url k t s) = urls_file s"
    by (auto simp: acquire_def set_worker_def split: poll.splits)
  have "image_mset (sent env) (pending (acquire i st url k t s) + inflight (workers s ! i))
      = image_mset (sent env) (pending s + {#url#})"
    using a by simp
  then show ?thesis
    by (simp add: accounted_def b ac_simps)
qed

lemma accounted_set_worker:
  assumes "i < length (workers s)"
  shows "accounted env (set_worker i w s) + image_mset (sent env) (inflight (workers s ! i))
       = accounted env s + image_mset (sent env) (inflight w)"
proof -
  have "image_mset (sent env) (pending (set_worker i w s) + inflight (workers s ! i))
      = image_mset (sent env) (pending s + inflight w)"
    using pending_set_worker [OF assms, of w] by simp
  moreover have "out (set_worker i w s) = out s" "urls_file (set_worker i w s) = urls_file s"
    by (simp_all add: set_worker_def)
  ultimately show ?thesis
    by (simp add: accounted_def ac_simps)
qed

lemma accounted_writerow:
  "accounted env (writerow st t r s) = accounted env s + {#r#}"
  by (simp add: accounted_def writerow_def pending_def)

lemma accounted_file:
  "readline (urls_file s) = (line, rest) \<Longrightarrow> line \<noteq> [] \<Longrightarrow>
   accounted env (s\<lparr>urls_file := rest\<rparr>) + {#emit env (strip line)#} = accounted env s"
  by (simp add: accounted_def pending_def file_lines_readline)

lemma workers_writerow: "workers (writerow st t r s) = workers s"
  by (simp add: writerow_def)

lemma accounted_next_line:
  assumes i: "i < length (workers s)" and idle: "inflight (workers s ! i) = {#}"
  shows "accounted env (next_line i st t s) = accounted env s"
proof -
  obtain line rest where rl: "readline (urls_file s) = (line, rest)"
    by (cases "readline (urls_file s)") auto
  show ?thesis
  proof (cases "line = []")
    case True
    then show ?thesis
      using rl accounted_set_worker [OF i, of env Done] idle
      by (simp add: next_line_def)
  next
    case False
    let ?s1 = "s\<lparr>urls_file := rest\<rparr>"
    let ?url = "strip line"
    have f: "accounted env ?s1 + {#emit env ?url#} = accounted env s"
      using rl False by (rule accounted_file)
    have i1: "i < length (workers ?s1)" and w1: "workers ?s1 ! i = workers s ! i"
      using i by simp_all
    show ?thesis
    proof (cases "DOMAIN_PATTERN_match (normalise ?url)")
      case None
      note nodom = None
      have "accounted env (set_worker i (Idle st) (writerow st t (error_row ?url no_group) ?s1))
          = accounted env ?s1 + {#error_row ?url no_group#}"
        using accounted_set_worker [of i "writerow st t (error_row ?url no_group) ?s1" env "Idle st"]
          i idle
        by (simp add: workers_writerow accounted_writerow)
      then show ?thesis
        using rl False None f emit_no_domain [OF None, of env]
        by (simp add: next_line_def Let_def)
    next
      case (Some d)
      note dom = Some
      have es: "emit env ?url = sent env ?url"
        using dom by (rule emit_domain)
      show ?thesis
      proof (cases "resolve (rates ?s1) d")
        case None
        have "accounted env (set_worker i (Requesting st ?url) ?s1)
            = accounted env ?s1 + {#emit env ?url#}"
          using accounted_set_worker [OF i1, of env "Requesting st ?url"] idle w1 es by simp
        then show ?thesis
          using rl False dom None f by (simp add: next_line_def Let_def)
      next
        case (Some k)
        have "accounted env (acquire i st ?url k t ?s1) = accounted env ?s1 + {#emit env ?url#}"
          using accounted_acquire [OF i1, of env st ?url k t] idle w1 es by simp
        then show ?thesis
          using rl False dom Some f by (simp add: next_line_def Let_def)
      qed
    qed
  qed
qed

lemma accounted_step: "accounted env (step env e s) = accounted env s"
proof -
  obtain i t where e: "e = (i, t)" by (cases e) auto
  show ?thesis
  proof (cases "i < length (workers s)")
    case False
    then show ?thesis by (simp add: step_def e)
  next
    case i: True
    show ?thesis
    proof (cases "workers s ! i")
      case Created
      then show ?thesis using i accounted_next_line [OF i, of env t t] by (simp add: step_def e)
    next
      case (Idle st)
      then show ?thesis using i accounted_next_line [OF i, of env st t] by (simp add: step_def e)
    next
      case (Waiting st url k)
      then show ?thesis using i accounted_acquire [OF i, of env st url k t] by (simp add: step_def e)
    next
      case (Requesting st url)
      let ?r = "result_row env url (session_head env (normalise url))"
      have "accounted env (set_worker i (Idle st) (writerow st t ?r s)) + {#sent env url#}
          = accounted env s + {#?r#}"
        using accounted_set_worker [of i "writerow st t ?r s" env "Idle st"] i Requesting
        by (simp add: workers_writerow accounted_writerow)
      then show ?thesis using i Requesting
        by (simp add: step_def e sent_def)
    next
      case Done
      then show ?thesis using i by (simp add: step_def e)
    qed
  qed
qed

lemma accounted_run: "accounted env (run env es s) = accounted env s"
  by (induction es arbitrary: s) (simp_all add: accounted_step)

lemmas step_defs = step_def next_line_def acquire_def set_worker_def writerow_def Let_def

lemmas step_splits = wstate.splits prod.splits option.splits poll.splits if_splits

lemma step_length: "length (workers (step env e s)) = length (workers s)"
  by (auto simp: step_defs split: step_splits)

lemma run_length: "length (workers (run env es s)) = length (workers s)"
  by (induction es arbitrary: s) (simp_all add: step_length)

lemma step_file_empty: "urls_file s = [] \<Longrightarrow> urls_file (step env e s) = []"
  by (auto simp: step_defs split: step_splits)

lemma step_other: "j \<noteq> fst e \<Longrightarrow> workers (step env e s) ! j = workers s ! j"
  by (auto simp: step_defs split: step_splits)

lemma step_Done:
  "workers (step env e s) ! j = Done \<Longrightarrow> j < length (workers s) \<Longrightarrow>
   workers s ! j = Done \<or> urls_file s = []"
proof (cases "j = fst e")
  case False
  assume "workers (step env e s) ! j = Done"
  then show ?thesis using step_other [OF False, of env s] by simp
next
  case True
  assume "workers (step env e s) ! j = Done" "j < length (workers s)"
  then show ?thesis using True readline_end [of "urls_file s"]
    by (auto simp: step_defs split: step_splits)
qed

lemma drained_step:
  assumes d: "drained s"
  shows "drained (step env e s)"
proof -
  have "urls_file (step env e s) = []" if "Done \<in> set (workers (step env e s))"
  proof -
    from that obtain j where j: "j < length (workers s)" "workers (step env e s) ! j = Done"
      by (auto simp: in_set_conv_nth step_length)
    then have "workers s ! j = Done \<or> urls_file s = []"
      using step_Done by blast
    moreover have "workers s ! j = Done \<Longrightarrow> Done \<in> set (workers s)"
      using j(1) by (metis nth_mem)
    ultimately have "urls_file s = []"
      using d by (auto simp: drained_def)
    then show ?thesis by (rule step_file_empty)
  qed
  then show ?thesis by (simp add: drained_def)
qed

lemma drained_run: "drained s \<Longrightarrow> drained (run env es s)"
  by (induction es arbitrary: s) (simp_all add: drained_step)

lemma all_done_pending: "all_done s \<Longrightarrow> pending s = {#}"
proof -
  have "list_all (\<lambda>w. w = Done) ws \<Longrightarrow> sum_list (map inflight ws) = {#}" for ws
    by (induction ws) auto
  then show "all_done s \<Longrightarrow> pending s = {#}"
    by (simp add: all_done_def pending_def)
qed

lemma finished_out:
  assumes n: "0 < n" and fin: "all_done (run env es (init_pool n content rs))"
  shows "mset (out (run env es (init_pool n content rs))) =
         image_mset (emit env) (mset (map strip (file_lines content)))"
proof -
  let ?s = "run env es (init_pool n content rs)"
  have "drained (init_pool n content rs)"
    by (simp add: drained_def init_pool_def)
  then have dr: "drained ?s" by (rule drained_run)
  have "length (workers ?s) = n"
    by (simp add: run_length init_pool_def)
  with n fin have "Done \<in> set (workers ?s)"
    by (cases "workers ?s") (auto simp: all_done_def)
  with dr have f: "urls_file ?s = []" by (simp add: drained_def)
  have "sum_list (map inflight (replicate n Created)) = {#}"
    by (induction n) auto
  then have "accounted env (init_pool n content rs) =
      image_mset (emit env) (mset (map strip (file_lines content)))"
    by (simp add: accounted_def init_pool_def pending_def)
  moreover have "accounted env ?s = mset (out ?s)"
    using f all_done_pending [OF fin] by (simp add: accounted_def file_lines.simps)
  ultimately show ?thesis
    using accounted_run [of env es "init_pool n content rs"] by simp
qed

lemma work_left_set_worker:
  "i < length (workers s) \<Longrightarrow>
   work_left (set_worker i w s) + weight (workers s ! i) = work_left s + weight w"
  using sum_list_update [of i "workers s" weight w]
  by (simp add: work_left_def set_worker_def)

lemma work_left_acquire:
  "i < length (workers s) \<Longrightarrow>
   work_left (acquire i st url k t s) + weight (workers s ! i) \<le> work_left s + 3"
  using work_left_set_worker [of i s "Waiting st url k"]
    work_left_set_worker [of i "s\<lparr>rates := rs\<rparr>" "Requesting st url" for rs]
  by (auto simp: acquire_def work_left_def set_worker_def split: poll.splits)

lemma work_left_next_line:
  assumes i: "i < length (workers s)" and w: "weight (workers s ! i) = 1"
  shows "work_left (next_line i st t s) < work_left s"
proof -
  obtain line rest where rl: "readline (urls_file s) = (line, rest)"
    by (cases "readline (urls_file s)") auto
  show ?thesis
  proof (cases "line = []")
    case True
    then show ?thesis
      using rl work_left_set_worker [OF i, of Done] w by (simp add: next_line_def)
  next
    case False
    let ?s1 = "s\<lparr>urls_file := rest\<rparr>"
    have f: "work_left ?s1 + 3 = work_left s"
      using rl False by (simp add: work_left_def file_lines_readline)
    have i1: "i < length (workers ?s1)" and w1: "workers ?s1 ! i = workers s ! i"
      using i by simp_all
    show ?thesis
    proof (cases "DOMAIN_PATTERN_match (normalise (strip line))")
      case None
      have "work_left (writerow st t r ?s1) = work_left ?s1" for r
        by (simp add: work_left_def writerow_def)
      then show ?thesis
        using rl False None f w
          work_left_set_worker [of i "writerow st t (error_row (strip line) no_group) ?s1" "Idle st"] i
        by (simp add: next_line_def workers_writerow)
    next
      case (Some d)
      note dom = Some
      show ?thesis
      proof (cases "resolve (rates ?s1) d")
        case None
        then show ?thesis
          using rl False dom f w work_left_set_worker [OF i1, of "Requesting st (strip line)"] w1
          by (simp add: next_line_def)
      next
        case (Some k)
        then show ?thesis
          using rl False dom f w work_left_acquire [OF i1, of st "strip line" k t] w1
          by (simp add: next_line_def)
      qed
    qed
  qed
qed

lemma step_progress:
  assumes i: "i < length (workers s)" and nd: "workers s ! i \<noteq> Done"
  shows "\<exists>t0. \<forall>t\<ge>t0. work_left (step env (i, t) s) < work_left s"
proof (cases "workers s ! i")
  case Created
  then have "work_left (step env (i, t) s) < work_left s" for t
    using i work_left_next_line [OF i, of t t] by (simp add: step_def)
  then show ?thesis by blast
next
  case (Idle st)
  then have "work_left (step env (i, t) s) < work_left s" for t
    using i work_left_next_line [OF i, of st t] by (simp add: step_def)
  then show ?thesis by blast
next
  case (Waiting st url k)
  let ?t0 = "last_use (rates s ! k) + interval (rates s ! k)"
  have "work_left (step env (i, t) s) < work_left s" if "?t0 \<le> t" for t
  proof -
    have "acquire i st url k t s =
        set_worker i (Requesting st url) (s\<lparr>rates := (rates s)[k := (rates s ! k)\<lparr>last_use := t\<rparr>]\<rparr>)"
      using that by (simp add: acquire_def wait_poll_def)
    then show ?thesis
      using Waiting i
        work_left_set_worker [of i "s\<lparr>rates := (rates s)[k := (rates s ! k)\<lparr>last_use := t\<rparr>]\<rparr>"
          "Requesting st url"]
      by (simp add: step_def work_left_def)
  qed
  then show ?thesis by blast
next
  case (Requesting st url)
  have "work_left (writerow st t r s) = work_left s" for r t
    by (simp add: work_left_def writerow_def)
  then have "work_left (step env (i, t) s) < work_left s" for t
    using Requesting i
      work_left_set_worker [of i "writerow st t (result_row env url (session_head env (normalise url))) s" "Idle st"]
    by (simp add: step_def workers_writerow)
  then show ?thesis by blast
next
  case Done
  with nd show ?thesis by simp
qed

lemma run_completes:
  "\<exists>es. all_done (run env es s) \<and> sorted (map snd es) \<and> list_all (\<lambda>e. a \<le> snd e) es"
proof (induction "work_left s" arbitrary: s a rule: less_induct)
  case less
  show ?case
  proof (cases "all_done s")
    case True
    then have "all_done (run env [] s) \<and> sorted (map snd ([] :: (nat \<times> real) list)) \<and>
        list_all (\<lambda>e. a \<le> snd e) ([] :: (nat \<times> real) list)"
      by simp
    then show ?thesis by blast
  next
    case False
    then obtain i where i: "i < length (workers s)" "workers s ! i \<noteq> Done"
      by (auto simp: all_done_def list_all_length)
    then obtain t0 where "\<forall>t\<ge>t0. work_left (step env (i, t) s) < work_left s"
      using step_progress by blast
    then have "work_left (step env (i, max a t0) s) < work_left s"
      by simp
    then obtain es where es: "all_done (run env es (step env (i, max a t0) s))"
        "sorted (map snd es)" "list_all (\<lambda>e. max a t0 \<le> snd e) es"
      using less [of "step env (i, max a t0) s" "max a t0"] by blast
    have "all_done (run env ((i, max a t0) # es) s) \<and> sorted (map snd ((i, max a t0) # es)) \<and>
        list_all (\<lambda>e. a \<le> snd e) ((i, max a t0) # es)"
      using es by (auto simp: list_all_iff)
    then show ?thesis by blast
  qed
qed

lemma emit_blank: "emit env [] = error_row [] no_group"
  by (simp add: emit_def get_status_value_def result_row_def normalise_def
      PROTOCOL_PATTERN_match_def DOMAIN_PATTERN_match_def startswith_def)

lemma rows_split:
  "image_mset (emit env) (mset us) =
   image_mset (emit env) (mset (filter (\<lambda>u. u \<noteq> []) us)) +
   replicate_mset (length (filter (\<lambda>u. u = []) us)) (error_row [] no_group)"
  by (induction us) (simp_all add: emit_blank)

text \<open>
  For every pool size \<open>n > 0\<close> the pool can run to completion with a clock that never
  runs backwards, and whenever all workers have exited, whatever the interleaving was,
  the rows written are, as a multiset, one row \<open>emit env u\<close> for every line whose
  stripped text \<open>u\<close> is not empty and one row \<open>error_row [] no_group\<close> for every line
  whose stripped text is empty.
\<close>

lemma loop_one_row_per_line:
  assumes "0 < n"
  shows "(\<exists>es. sorted (map snd es) \<and> all_done (run env es (init_pool n content rs))) \<and>
    (\<forall>es. all_done (run env es (init_pool n content rs)) \<longrightarrow>
       mset (out (run env es (init_pool n content rs))) =
         image_mset (emit env) (mset (filter (\<lambda>u. u \<noteq> []) (map strip (file_lines content)))) +
         replicate_mset (length (filter (\<lambda>u. u = []) (map strip (file_lines content))))
           (error_row [] no_group))"
proof (intro conjI allI impI)
  show "\<exists>es. sorted (map snd es) \<and> all_done (run env es (init_pool n content rs))"
    using run_completes [of env "init_pool n content rs" 0] by blast
next
  fix es
  assume "all_done (run env es (init_pool n content rs))"
  then have "mset (out (run env es (init_pool n content rs))) =
      image_mset (emit env) (mset (map strip (file_lines content)))"
    using assms by (rule finished_out [rotated])
  then show "mset (out (run env es (init_pool n content rs))) =
         image_mset (emit env) (mset (filter (\<lambda>u. u \<noteq> []) (map strip (file_lines content)))) +
         replicate_mset (length (filter (\<lambda>u. u = []) (map strip (file_lines content))))
           (error_row [] no_group)"
    by (simp only: rows_split [of env "map strip (file_lines content)"])
qed

text \<open>
  A worker whose request raises writes the row of line 48 and is back at the head of
  its loop; in a completed run every line whose check raised has that row.
\<close>

lemma loop_failure_row:
  "(i < length (workers s) \<and> workers s ! i = Requesting st url \<and> session_head env (normalise url) = Inl e \<longrightarrow>
      step env (i, t) s =
        set_worker i (Idle st) (writerow st t [url, ''ERROR: '' @ message e] s)) \<and>
   (0 < n \<and> all_done (run env es (init_pool n content rs)) \<and>
    line \<in> set (file_lines content) \<and> get_status_value env (strip line) = Inl e \<longrightarrow>
      [strip line, ''ERROR: '' @ message e] \<in> set (out (run env es (init_pool n content rs))) \<and>
      length (out (run env es (init_pool n content rs))) = length (file_lines content))"
proof (intro conjI impI)
  assume "i < length (workers s) \<and> workers s ! i = Requesting st url \<and> session_head env (normalise url) = Inl e"
  then show "step env (i, t) s =
        set_worker i (Idle st) (writerow st t [url, ''ERROR: '' @ message e] s)"
    by (simp add: step_def result_row_def error_row_def)
next
  assume h: "0 < n \<and> all_done (run env es (init_pool n content rs)) \<and>
    line \<in> set (file_lines content) \<and> get_status_value env (strip line) = Inl e"
  then have m: "mset (out (run env es (init_pool n content rs))) =
      image_mset (emit env) (mset (map strip (file_lines content)))"
    using finished_out by blast
  have "emit env (strip line) \<in># image_mset (emit env) (mset (map strip (file_lines content)))"
    using h by auto
  then have "emit env (strip line) \<in> set (out (run env es (init_pool n content rs)))"
    using m by (metis set_mset_mset)
  then show "[strip line, ''ERROR: '' @ message e] \<in> set (out (run env es (init_pool n content rs)))"
    using h by (simp add: emit_def result_row_def error_row_def)
  have "size (mset (out (run env es (init_pool n content rs)))) =
      size (image_mset (emit env) (mset (map strip (file_lines content))))"
    using m by simp
  then show "length (out (run env es (init_pool n content rs))) = length (file_lines content)"
    by simp
qed

text \<open>
  The loop has no test for a blank line: the empty URL reaches line 20, where the
  pattern does not match and \<open>None.group(1)\<close> raises, and line 48 writes a row for it.
\<close>

lemma strip_blank_no_domain:
  "DOMAIN_PATTERN_match (normalise []) = None"
  by (simp add: normalise_def PROTOCOL_PATTERN_match_def DOMAIN_PATTERN_match_def startswith_def)

lemma loop_blank_line:
  assumes "i < length (workers s)"
    and "workers s ! i = Idle st \<or> (workers s ! i = Created \<and> st = t)"
    and "readline (urls_file s) = (line, rest)"
    and "line \<noteq> []"
    and "strip line = []"
  shows "step env (i, t) s =
    set_worker i (Idle st)
      (writerow st t [[], ''ERROR: '' @ message no_group] (s\<lparr>urls_file := rest\<rparr>))"
  using assms strip_blank_no_domain
  by (auto simp: step_def next_line_def error_row_def)

text \<open>
  The test of line 50 compares the clock with the \<open>start_time\<close> of the worker, which
  line 34 sets once and no event changes.
\<close>

lemma loop_flush_test:
  assumes "i < length (workers s)"
  shows "flushes (step env (i, t) s) =
      (if length (out s) < length (out (step env (i, t) s)) \<and>
          2 < t - (case start_time (workers s ! i) of None \<Rightarrow> t | Some st \<Rightarrow> st)
       then flushes s @ [t] else flushes s) \<and>
     (\<forall>st. start_time (workers s ! j) = Some st \<longrightarrow>
        start_time (workers (step env (i, t) s) ! j) = Some st \<or>
        workers (step env (i, t) s) ! j = Done)"
proof
  show "flushes (step env (i, t) s) =
      (if length (out s) < length (out (step env (i, t) s)) \<and>
          2 < t - (case start_time (workers s ! i) of None \<Rightarrow> t | Some st \<Rightarrow> st)
       then flushes s @ [t] else flushes s)"
    using assms by (auto simp: step_defs split: step_splits)
  show "\<forall>st. start_time (workers s ! j) = Some st \<longrightarrow>
        start_time (workers (step env (i, t) s) ! j) = Some st \<or>
        workers (step env (i, t) s) ! j = Done"
  proof (cases "j = i")
    case False
    then show ?thesis using step_other [of j "(i, t)" env s] by simp
  next
    case True
    then show ?thesis using assms by (auto simp: step_defs split: step_splits)
  qed
qed

end
